theory Spec2Isabelle
  imports Complex_Main "HOL-Library.AList" "HOL-Library.Sublist" "HOL-Library.Char_ord" "HOL-Library.List_Lexorder"
begin

section \<open>Strings\<close>

text \<open>
  A Python \<open>str\<close> is a sequence of code points. Here a text is a \<open>string\<close> whose
  characters are the code points below 256; the character classes below are the ones
  CPython uses on that range (\<open>str.isspace\<close> and the pattern \<open>\s\<close> agree, \<open>\w\<close> is
  \<open>str.isalnum\<close> or the underscore).
\<close>

definition code :: "char \<Rightarrow> nat" where
  "code c = of_char c"

definition is_space :: "char \<Rightarrow> bool" where
  "is_space c = (let n = code c in
     (9 \<le> n \<and> n \<le> 13) \<or> (28 \<le> n \<and> n \<le> 32) \<or> n = 133 \<or> n = 160)"

definition is_word :: "char \<Rightarrow> bool" where
  "is_word c = (let n = code c in
     (48 \<le> n \<and> n \<le> 57) \<or> (65 \<le> n \<and> n \<le> 90) \<or> n = 95 \<or> (97 \<le> n \<and> n \<le> 122)
     \<or> n = 170 \<or> n = 178 \<or> n = 179 \<or> n = 181 \<or> n = 185 \<or> n = 186
     \<or> (188 \<le> n \<and> n \<le> 190) \<or> (192 \<le> n \<and> n \<le> 214) \<or> (216 \<le> n \<and> n \<le> 246)
     \<or> (248 \<le> n \<and> n \<le> 255))"

definition lower_char :: "char \<Rightarrow> char" where
  "lower_char c = (let n = code c in
     if (65 \<le> n \<and> n \<le> 90) \<or> (192 \<le> n \<and> n \<le> 222 \<and> n \<noteq> 215)
     then char_of (n + 32) else c)"

text \<open>\<open>s.lower()\<close>\<close>

definition lower :: "string \<Rightarrow> string" where
  "lower s = map lower_char s"

text \<open>\<open>s.strip()\<close>: leading and trailing whitespace removed.\<close>

definition strip :: "string \<Rightarrow> string" where
  "strip s = rev (dropWhile is_space (rev (dropWhile is_space s)))"

text \<open>\<open>' '.join(xs)\<close>\<close>

fun join_sp :: "string list \<Rightarrow> string" where
  "join_sp [] = []"
| "join_sp [x] = x"
| "join_sp (x # y # ys) = x @ CHR '' '' # join_sp (y # ys)"

text \<open>
  \<open>xs[:m]\<close> for a Python integer \<open>m\<close>: the first \<open>m\<close> elements, and for a negative
  \<open>m\<close> all but the last \<open>-m\<close>.
\<close>

definition slice_to :: "'a list \<Rightarrow> int \<Rightarrow> 'a list" where
  "slice_to xs m = (if 0 \<le> m then take (nat m) xs else take (length xs - nat (- m)) xs)"

section \<open>The extractive summarizer\<close>

text \<open>
  \<open>re.split(r'(?<=[.!?])\s+', text)\<close>: a boundary is a maximal run of whitespace
  that directly follows one of \<open>.\<close>, \<open>!\<close>, \<open>?\<close>. The pieces between the boundaries
  are returned; the list is never empty.
\<close>

definition is_terminal :: "char \<Rightarrow> bool" where
  "is_terminal c = (c = CHR ''.'' \<or> c = CHR ''!'' \<or> c = CHR ''?'')"

definition at_boundary :: "char \<Rightarrow> string \<Rightarrow> bool" where
  "at_boundary c cs = (is_terminal c \<and> (case cs of [] \<Rightarrow> False | d # _ \<Rightarrow> is_space d))"

fun attach :: "char \<Rightarrow> string list \<Rightarrow> string list" where
  "attach c [] = [[c]]"
| "attach c (s # ss) = (c # s) # ss"

function split_sentences :: "string \<Rightarrow> string list" where
  "split_sentences [] = [[]]"
| "split_sentences (c # cs) =
     (if at_boundary c cs then [c] # split_sentences (dropWhile is_space cs)
      else attach c (split_sentences cs))"
  by pat_completeness auto
termination
  by (relation "measure length") (auto simp: length_dropWhile_le less_Suc_eq_le)

text \<open>\<open>re.findall(r'\w+', s)\<close>: the maximal runs of word characters, left to right.\<close>

fun findall_from :: "string \<Rightarrow> string \<Rightarrow> string list" where
  "findall_from cur [] = (if cur = [] then [] else [cur])"
| "findall_from cur (c # cs) =
     (if is_word c then findall_from (cur @ [c]) cs
      else if cur = [] then findall_from [] cs
      else cur # findall_from [] cs)"

definition findall_words :: "string \<Rightarrow> string list" where
  "findall_words s = findall_from [] s"

definition stopwords :: "string list" where
  "stopwords = [''the'', ''is'', ''in'', ''and'', ''to'', ''of'', ''a'', ''for'', ''on'', ''that'',
     ''with'', ''as'', ''are'', ''was'', ''it'', ''at'', ''by'', ''an'', ''be'', ''this'', ''or'',
     ''from'']"

text \<open>
  \<open>Counter(ws)\<close> as an association list in insertion order; \<open>freqs.get(w, 0)\<close> reads it,
  and \<open>not freqs\<close> holds when it has no entry.
\<close>

definition counter_add :: "string \<Rightarrow> (string \<times> int) list \<Rightarrow> (string \<times> int) list" where
  "counter_add w al =
     (case map_of al w of None \<Rightarrow> al @ [(w, 1)] | Some n \<Rightarrow> AList.update w (n + 1) al)"

definition Counter :: "string list \<Rightarrow> (string \<times> int) list" where
  "Counter ws = fold counter_add ws []"

definition counter_get :: "(string \<times> int) list \<Rightarrow> string \<Rightarrow> int" where
  "counter_get al w = (case map_of al w of None \<Rightarrow> 0 | Some n \<Rightarrow> n)"

definition word_freqs :: "string \<Rightarrow> (string \<times> int) list" where
  "word_freqs text =
     Counter (filter (\<lambda>w. w \<notin> set stopwords \<and> length w > 2) (findall_words (lower text)))"

definition sentence_score :: "(string \<times> int) list \<Rightarrow> string \<Rightarrow> int" where
  "sentence_score freqs s = sum_list (map (counter_get freqs) (findall_words (lower s)))"

text \<open>
  \<open>sorted(xs, key=lambda x: x[0], reverse=True)\<close>: Python's sort is stable, and with
  \<open>reverse=True\<close> elements with equal keys still keep their original order.
\<close>

definition sorted_desc :: "(int \<times> string) list \<Rightarrow> (int \<times> string) list" where
  "sorted_desc xs = sort_key (\<lambda>x. - fst x) xs"

definition simple_extractive_summary :: "string \<Rightarrow> int \<Rightarrow> string" where
  "simple_extractive_summary text max_sentences =
     (if text = [] then []
      else let sentences = split_sentences text in
        if int (length sentences) \<le> max_sentences then strip (join_sp sentences)
        else let freqs = word_freqs text in
          if freqs = [] then strip (join_sp (slice_to sentences max_sentences))
          else let sent_scores = map (\<lambda>s. (sentence_score freqs s, s)) sentences;
                   top = slice_to (sorted_desc sent_scores) max_sentences;
                   top_set = set (map snd top);
                   ordered = filter (\<lambda>s. s \<in> top_set) sentences
               in strip (join_sp ordered))"

section \<open>Reading the URL list\<close>

text \<open>
  The file system is not part of the program: an input file is given by whether the path
  exists, the suffix \<open>Path(input_path).suffix\<close>, its decoded text, and, for a table,
  the cells of the column named \<open>url\<close> when the table has one (a missing cell is
  \<open>None\<close>).
\<close>

record input_file =
  file_exists :: bool
  suffix :: string
  content :: string
  url_column :: "string option list option"

datatype error = FileNotFoundError | ValueError string

text \<open>
  Iterating a file opened in text mode yields its lines; \<open>\n\<close>, \<open>\r\n\<close> and \<open>\r\<close>
  all end a line and are read as \<open>\n\<close>, which stays at the end of the line.
\<close>

fun lines_from :: "string \<Rightarrow> string \<Rightarrow> string list" where
  "lines_from cur [] = (if cur = [] then [] else [cur])"
| "lines_from cur (c # cs) =
     (if c = CHR 0x0A then (cur @ [CHR 0x0A]) # lines_from [] cs
      else if c = CHR 0x0D then
        (case cs of
           [] \<Rightarrow> [cur @ [CHR 0x0A]]
         | d # ds \<Rightarrow> if d = CHR 0x0A then (cur @ [CHR 0x0A]) # lines_from [] ds
                    else (cur @ [CHR 0x0A]) # lines_from [] cs)
      else lines_from (cur @ [c]) cs)"

definition file_lines :: "string \<Rightarrow> string list" where
  "file_lines text = lines_from [] text"

text \<open>\<open>s.startswith('#')\<close>\<close>

definition startswith_hash :: "string \<Rightarrow> bool" where
  "startswith_hash s = (case s of [] \<Rightarrow> False | c # _ \<Rightarrow> c = CHR ''#'')"

definition dropna :: "'a option list \<Rightarrow> 'a list" where
  "dropna cells = concat (map (\<lambda>c. case c of None \<Rightarrow> [] | Some v \<Rightarrow> [v]) cells)"

definition read_urls :: "input_file \<Rightarrow> error + string list" where
  "read_urls f =
     (if \<not> file_exists f then Inl FileNotFoundError
      else if lower (suffix f) \<in> set [''.txt''] then
        Inr (map strip
              (filter (\<lambda>line. strip line \<noteq> [] \<and> \<not> startswith_hash (strip line))
                 (file_lines (content f))))
      else if lower (suffix f) \<in> set [''.csv''] then
        (case url_column f of
           None \<Rightarrow> Inl (ValueError (''CSV must have a column named '' @ [CHR 0x27] @ ''url'' @ [CHR 0x27]))
         | Some col \<Rightarrow> Inr (dropna col))
      else if lower (suffix f) \<in> set [''.xlsx'', ''.xls''] then
        (case url_column f of
           None \<Rightarrow> Inl (ValueError (''Excel file must have a column named '' @ [CHR 0x27] @ ''url'' @ [CHR 0x27]))
         | Some col \<Rightarrow> Inr (dropna col))
      else Inl (ValueError ''Unsupported file type. Use .txt, .csv, or .xlsx''))"

text \<open>
  The result the interface describes for a text file: the lines, each stripped, keeping
  those that are not blank and do not begin with \<open>#\<close>, in file order.
\<close>

definition stripped_url_lines :: "string \<Rightarrow> string list" where
  "stripped_url_lines text =
     filter (\<lambda>l. l \<noteq> [] \<and> \<not> startswith_hash l) (map strip (file_lines text))"

text \<open>A text file with a URL, a comment, a blank line and a URL between spaces.\<close>

definition sample_urls_file :: input_file where
  "sample_urls_file =
     \<lparr>file_exists = True, suffix = ''.txt'',
      content = ''http://a.example'' @ [CHR 0x0A] @ '' # later'' @ [CHR 0x0D, CHR 0x0A]
                @ [CHR 0x0A] @ ''  http://b.example  '' @ [CHR 0x0A],
      url_column = None\<rparr>"

section \<open>The pipeline over a list of URLs\<close>

record page_info =
  page_title :: string
  page_meta_description :: string
  text_preview :: string
  full_text :: string

record summary_result =
  url :: string
  title :: string
  meta_description :: string
  summary :: string
  notes' :: string

text \<open>
  The network and the HTML parser are collaborators. The answer to a request is not a
  function of the URL alone (the same URL may be fetched twice with different outcomes),
  so the fetch and the HTTP POST take the position \<open>i\<close> of the URL in the run as well.
  \<open>fetch_page\<close> returns the page text or \<open>None\<close>; \<open>http_post\<close> stands for the request
  and the decoding of its response inside \<open>call_gemini_api\<close>: the text found in the
  response, or \<open>None\<close> when the request or its decoding raises.
\<close>

record env =
  fetch_page :: "nat \<Rightarrow> string \<Rightarrow> string option"
  extract_text_and_meta :: "string \<Rightarrow> page_info"
  http_post :: "nat \<Rightarrow> string \<Rightarrow> string \<Rightarrow> string \<Rightarrow> string option"

text \<open>Python's truth value of an \<open>Optional[str]\<close>: \<open>None\<close> and \<open>''\<close> are false.\<close>

fun truthy :: "string option \<Rightarrow> bool" where
  "truthy None = False"
| "truthy (Some s) = (s \<noteq> [])"

definition call_gemini_api ::
  "env \<Rightarrow> nat \<Rightarrow> string \<Rightarrow> string option \<Rightarrow> string option \<Rightarrow> string option" where
  "call_gemini_api E i prompt api_key api_url =
     (case (api_key, api_url) of
        (Some k, Some u) \<Rightarrow> if k = [] \<or> u = [] then None else http_post E i prompt k u
      | _ \<Rightarrow> None)"

definition build_prompt :: "string \<Rightarrow> string \<Rightarrow> string \<Rightarrow> string" where
  "build_prompt t m preview =
     ''Summarize the following webpage content in 2-3 short sentences. Keep it factual and concise.''
     @ [CHR 0x0A, CHR 0x0A] @ ''Title: '' @ t
     @ [CHR 0x0A, CHR 0x0A] @ ''Meta: '' @ m
     @ [CHR 0x0A, CHR 0x0A] @ ''Content preview: '' @ preview
     @ [CHR 0x0A, CHR 0x0A] @ ''Summary:''"

text \<open>The body of the loop of \<open>summarize_urls\<close> for the \<open>i\<close>-th URL: the record it appends.\<close>

definition summarize_one ::
  "env \<Rightarrow> bool \<Rightarrow> string option \<Rightarrow> string option \<Rightarrow> nat \<Rightarrow> string \<Rightarrow> summary_result" where
  "summarize_one E use_gemini gemini_api_key gemini_api_url i u =
     (let html = fetch_page E i u in
      if \<not> truthy html then
        \<lparr>url = u, title = [], meta_description = [], summary = [], notes' = ''fetch_failed''\<rparr>
      else
        let info = extract_text_and_meta E (case html of Some h \<Rightarrow> h | None \<Rightarrow> []);
            preview = text_preview info;
            prompt = build_prompt (page_title info) (page_meta_description info) preview
        in if use_gemini \<and> truthy gemini_api_key \<and> truthy gemini_api_url then
             (let s = call_gemini_api E i prompt gemini_api_key gemini_api_url in
              if truthy s then
                \<lparr>url = u, title = page_title info,
                 meta_description = page_meta_description info,
                 summary = (case s of Some t \<Rightarrow> t | None \<Rightarrow> []),
                 notes' = ''generated_by_gemini''\<rparr>
              else
                \<lparr>url = u, title = page_title info,
                 meta_description = page_meta_description info,
                 summary = simple_extractive_summary preview 3,
                 notes' = ''gemini_failed_fallback_extractive''\<rparr>)
           else
             \<lparr>url = u, title = page_title info,
              meta_description = page_meta_description info,
              summary = simple_extractive_summary preview 3,
              notes' = ''no_gemini_local_extractive''\<rparr>)"

fun summarize_loop ::
  "env \<Rightarrow> bool \<Rightarrow> string option \<Rightarrow> string option \<Rightarrow> nat \<Rightarrow> string list
     \<Rightarrow> summary_result list \<Rightarrow> summary_result list" where
  "summarize_loop E g k a i [] results = results"
| "summarize_loop E g k a i (u # us) results =
     summarize_loop E g k a (Suc i) us (results @ [summarize_one E g k a i u])"

definition summarize_urls ::
  "env \<Rightarrow> string list \<Rightarrow> bool \<Rightarrow> string option \<Rightarrow> string option \<Rightarrow> summary_result list" where
  "summarize_urls E urls use_gemini gemini_api_key gemini_api_url =
     summarize_loop E use_gemini gemini_api_key gemini_api_url 1 urls []"

text \<open>
  A sample environment: one site is down, every other page has the same content, and the
  summarization service answers with an empty text at one endpoint and with a sentence at
  every other.
\<close>

definition sample_env :: env where
  "sample_env =
     \<lparr>fetch_page = (\<lambda>i u. if u = ''http://down.example'' then None
                             else Some ''<title>T</title>Hello world.''),
      extract_text_and_meta = (\<lambda>h. \<lparr>page_title = ''T'', page_meta_description = [],
                                      text_preview = ''T Hello world.'',
                                      full_text = ''T Hello world.''\<rparr>),
      http_post = (\<lambda>i prompt k u. if u = ''https://api.example/empty'' then Some []
                                     else Some ''A page that greets the world.'')\<rparr>"

section \<open>The log analyzer\<close>

text \<open>
  A row of the data frame. \<open>pd.read_csv\<close> gives every cell either its text or the
  missing value (an empty cell), so a cell as read is a \<open>string option\<close>. After the
  two coercions \<open>start\<close> holds a timestamp or \<open>NaT\<close> and \<open>duration_min\<close> a number or
  \<open>NaN\<close>; both missing values are \<open>None\<close>. A 64-bit float is given by the real
  number it denotes: comparing two floats and negating one are exact, adding them is not,
  so the sum of a column is not computed here but taken from pandas (see \<open>column_sum\<close>).
\<close>

record ('s, 'd) log_row =
  user :: "string option"
  task_type :: "string option"
  start :: 's
  duration_min :: 'd

type_synonym timestamp = int

type_synonym raw_row = "(string option, string option) log_row"

type_synonym row = "(timestamp option, real option) log_row"

text \<open>
  What the program takes from pandas. The two parsers, on the text of a cell:
  \<open>pd.to_datetime\<close> and \<open>pd.to_numeric\<close>, both with \<open>errors='coerce'\<close>, so that a
  text that does not parse gives the missing value; a missing cell stays missing. And
  \<open>column_sum\<close>, the float that \<open>Series.sum()\<close> returns for the floats of a column,
  in row order: a rounded sum, which need not be the exact sum of the values.
\<close>

record parsers =
  to_datetime :: "string \<Rightarrow> timestamp option"
  to_numeric :: "string \<Rightarrow> real option"
  column_sum :: "real list \<Rightarrow> real"

definition coerce :: "parsers \<Rightarrow> raw_row \<Rightarrow> row" where
  "coerce P r =
     \<lparr>user = user r, task_type = task_type r,
      start = Option.bind (start r) (to_datetime P),
      duration_min = Option.bind (duration_min r) (to_numeric P)\<rparr>"

definition invalid_timestamp :: "row \<Rightarrow> bool" where
  "invalid_timestamp r = (start r = None)"

definition invalid_duration :: "row \<Rightarrow> bool" where
  "invalid_duration r = (duration_min r = None)"

text \<open>\<open>df['duration_min'] < 0\<close>: a comparison with \<open>NaN\<close> is false.\<close>

definition negative_duration :: "row \<Rightarrow> bool" where
  "negative_duration r = (case duration_min r of None \<Rightarrow> False | Some d \<Rightarrow> d < 0)"

definition invalid_mask :: "row \<Rightarrow> bool" where
  "invalid_mask r = (invalid_timestamp r \<or> invalid_duration r \<or> negative_duration r)"

record agg_row =
  group_key :: string
  total_minutes :: real

text \<open>
  \<open>df.groupby(key, as_index=False)['duration_min'].sum()\<close> with the defaults of
  \<open>groupby\<close>: \<open>dropna=True\<close> leaves out the rows whose key is missing, and
  \<open>sort=True\<close> lists the groups by ascending key.
\<close>

definition group_keys :: "(row \<Rightarrow> string option) \<Rightarrow> row list \<Rightarrow> string list" where
  "group_keys key rows = sort (remdups (dropna (map key rows)))"

text \<open>
  The values that the sum of a group adds: the durations of the rows with the key, in row
  order; \<open>sum()\<close> skips missing values.
\<close>

definition group_durations :: "(row \<Rightarrow> string option) \<Rightarrow> row list \<Rightarrow> string \<Rightarrow> real list" where
  "group_durations key rows k = dropna (map duration_min (filter (\<lambda>r. key r = Some k) rows))"

definition groupby_sum ::
  "parsers \<Rightarrow> (row \<Rightarrow> string option) \<Rightarrow> row list \<Rightarrow> agg_row list" where
  "groupby_sum P key rows =
     map (\<lambda>k. \<lparr>group_key = k, total_minutes = column_sum P (group_durations key rows k)\<rparr>)
       (group_keys key rows)"

text \<open>
  \<open>sort_values('total_minutes', ascending=False)\<close>: rows by descending total, rows
  with equal totals in the order of the table.
\<close>

definition sort_values_desc :: "agg_row list \<Rightarrow> agg_row list" where
  "sort_values_desc rows = sort_key (\<lambda>r. - total_minutes r) rows"

record analysis =
  time_per_user :: "agg_row list"
  time_per_task :: "agg_row list"
  top3_tasks :: "agg_row list"
  invalid_rows :: "row list"

definition analyze :: "parsers \<Rightarrow> raw_row list \<Rightarrow> analysis" where
  "analyze P df_original =
     (let df = map (coerce P) df_original;
          invalid = filter invalid_mask df;
          valid_df = filter (\<lambda>r. \<not> invalid_mask r) df;
          per_user = groupby_sum P user valid_df;
          per_task = groupby_sum P task_type valid_df;
          top3 = take 3 (sort_values_desc per_task)
      in \<lparr>time_per_user = per_user, time_per_task = per_task, top3_tasks = top3,
          invalid_rows = invalid\<rparr>)"

text \<open>
  The reason tags that the combined report of \<open>Task 1/analyze_logs.py\<close> writes beside
  each invalid row.
\<close>

definition reasons :: "row \<Rightarrow> string list" where
  "reasons r =
     (if start r = None then [''bad_timestamp''] else [])
     @ (if duration_min r = None then [''missing_duration''] else [])
     @ (if duration_min r \<noteq> None \<and> negative_duration r then [''negative_duration''] else [])"

text \<open>
  The ranking step in the words of the specification: sort descending by
  \<open>total_minutes\<close> and take the first three rows.
\<close>

definition ranking_step :: "agg_row list \<Rightarrow> agg_row list" where
  "ranking_step table = take 3 (sort_key (\<lambda>r. - total_minutes r) table)"

text \<open>
  The log of the scenario of the specification, and pandas on its cells: the durations
  are whole numbers, which floats add without rounding.
\<close>

definition sample_parsers :: parsers where
  "sample_parsers =
     \<lparr>to_datetime = (\<lambda>s. if s = ''2024-01-01T10:00'' then Some 1704103200
                          else if s = ''2024-01-01T11:00'' then Some 1704106800 else None),
      to_numeric = (\<lambda>s. if s = ''30'' then Some 30 else if s = ''20'' then Some 20
                         else if s = ''-5'' then Some (- 5) else None),
      column_sum = sum_list\<rparr>"

definition sample_log :: "raw_row list" where
  "sample_log =
     [\<lparr>user = Some ''alice'', task_type = Some ''build'', start = Some ''2024-01-01T10:00'',
       duration_min = Some ''30''\<rparr>,
      \<lparr>user = Some ''alice'', task_type = Some ''build'', start = Some ''bad-date'',
       duration_min = Some ''20''\<rparr>,
      \<lparr>user = Some ''bob'', task_type = Some ''test'', start = Some ''2024-01-01T11:00'',
       duration_min = Some ''-5''\<rparr>]"

text \<open>A valid record whose \<open>user\<close> cell is empty.\<close>

definition anonymous_log :: "raw_row list" where
  "anonymous_log =
     [\<lparr>user = None, task_type = Some ''build'', start = Some ''2024-01-01T10:00'',
       duration_min = Some ''30''\<rparr>]"

text \<open>The valid rows of a log, after the coercions.\<close>

definition valid_rows :: "parsers \<Rightarrow> raw_row list \<Rightarrow> row list" where
  "valid_rows P df_original = filter (\<lambda>r. \<not> invalid_mask r) (map (coerce P) df_original)"

section \<open>Properties of the summarizer\<close>

lemma counter_add_not_Nil: "counter_add w al \<noteq> []"
  by (cases "map_of al w") (auto simp: counter_add_def dest: map_of_SomeD)

lemma fold_counter_add_not_Nil: "al \<noteq> [] \<Longrightarrow> fold counter_add ws al \<noteq> []"
  by (induction ws arbitrary: al) (simp_all add: counter_add_not_Nil)

lemma Counter_Nil_iff: "Counter ws = [] \<longleftrightarrow> ws = []"
proof (cases ws)
  case Nil
  then show ?thesis by (simp add: Counter_def)
next
  case (Cons w ws')
  then show ?thesis
    by (simp add: Counter_def fold_counter_add_not_Nil counter_add_not_Nil)
qed

lemma word_freqs_Nil_iff:
  "word_freqs text = [] \<longleftrightarrow>
     (\<forall>w \<in> set (findall_words (lower text)). w \<in> set stopwords \<or> length w \<le> 2)"
  by (auto simp: word_freqs_def Counter_Nil_iff filter_empty_conv not_less)

lemma slice_to_nonneg: "0 \<le> m \<Longrightarrow> slice_to xs m = take (nat m) xs"
  by (simp add: slice_to_def)

text \<open>
  Claim C1, at a text with a repeated sentence. The text \<open>foo. foo.\<close> splits into two
  sentences, both with the greatest score; with \<open>max_sentences = 1\<close> one of them is
  picked, the membership test on the sentence text lets both through, and the summary
  splits into two sentences again, one more than \<open>max_sentences\<close>.
\<close>

theorem summary_repeated_sentence_exceeds_max:
  "split_sentences ''foo. foo.'' = [''foo.'', ''foo.'']
   \<and> simple_extractive_summary ''foo. foo.'' 1 = ''foo. foo.''
   \<and> length (split_sentences (simple_extractive_summary ''foo. foo.'' 1)) = 2"
  by code_simp

text \<open>
  Claim C3. For a count \<open>max_sentences \<ge> 0\<close> and a text with more than
  \<open>max_sentences\<close> sentences, if every token of the lowercased text is a stopword or
  has length at most 2 (so that the frequency table is empty), the summary is the first
  \<open>max_sentences\<close> sentences in their original order, joined by single spaces and
  trimmed. In particular the summary of \<open>A. B. C. D.\<close> with \<open>max_sentences = 3\<close> is
  \<open>A. B. C.\<close>
\<close>

theorem summary_empty_freqs_first_sentences:
  "(0 \<le> m \<and> m < int (length (split_sentences text))
      \<and> (\<forall>w \<in> set (findall_words (lower text)). w \<in> set stopwords \<or> length w \<le> 2)
     \<longrightarrow> simple_extractive_summary text m
           = strip (join_sp (take (nat m) (split_sentences text))))
   \<and> simple_extractive_summary ''A. B. C. D.'' 3 = ''A. B. C.''"
proof
  show "0 \<le> m \<and> m < int (length (split_sentences text))
      \<and> (\<forall>w \<in> set (findall_words (lower text)). w \<in> set stopwords \<or> length w \<le> 2)
     \<longrightarrow> simple_extractive_summary text m
           = strip (join_sp (take (nat m) (split_sentences text)))"
  proof
    assume h: "0 \<le> m \<and> m < int (length (split_sentences text))
      \<and> (\<forall>w \<in> set (findall_words (lower text)). w \<in> set stopwords \<or> length w \<le> 2)"
    then have fr: "word_freqs text = []" by (simp add: word_freqs_Nil_iff)
    show "simple_extractive_summary text m
           = strip (join_sp (take (nat m) (split_sentences text)))"
    proof (cases "text = []")
      case True
      with h have "m = 0" by simp
      with True show ?thesis by (simp add: simple_extractive_summary_def strip_def)
    next
      case False
      with h fr show ?thesis
        by (simp add: simple_extractive_summary_def Let_def slice_to_nonneg)
    qed
  qed
  show "simple_extractive_summary ''A. B. C. D.'' 3 = ''A. B. C.''"
    by code_simp
qed

theorem summary_empty_freqs_first_sentences_witness:
  "(0::int) \<le> 3 \<and> 3 < int (length (split_sentences ''A. B. C. D.''))
   \<and> list_all (\<lambda>w. w \<in> set stopwords \<or> length w \<le> 2) (findall_words (lower ''A. B. C. D.''))
   \<and> simple_extractive_summary ''A. B. C. D.'' 3
       = strip (join_sp (take (nat 3) (split_sentences ''A. B. C. D.'')))"
proof -
  have h1: "(0::int) \<le> 3"
    by simp
  have h2: "3 < int (length (split_sentences ''A. B. C. D.''))"
    by code_simp
  have h3: "list_all (\<lambda>w. w \<in> set stopwords \<or> length w \<le> 2)
              (findall_words (lower ''A. B. C. D.''))"
    by code_simp
  have h3': "\<forall>w \<in> set (findall_words (lower ''A. B. C. D.'')).
               w \<in> set stopwords \<or> length w \<le> 2"
    using h3 by (simp only: list_all_iff)
  have "simple_extractive_summary ''A. B. C. D.'' 3
          = strip (join_sp (take (nat 3) (split_sentences ''A. B. C. D.'')))"
    using summary_empty_freqs_first_sentences [of 3 "''A. B. C. D.''"] h1 h2 h3' by blast
  with h1 h2 h3 show ?thesis
    by blast
qed

subsection \<open>Selection of the best sentences\<close>

lemma distinct_append_order:
  assumes "distinct (A1 @ A2)" and "A1 @ A2 = B1 @ B2"
    and "a \<in> set A1" and "b \<in> set A2" and "b \<in> set B1" and "a \<in> set B2"
  shows False
proof -
  from assms(2) obtain us where
    "(A1 = B1 @ us \<and> us @ A2 = B2) \<or> (A1 @ us = B1 \<and> A2 = us @ B2)"
    by (auto simp: append_eq_append_conv2)
  then show False
  proof
    assume "A1 = B1 @ us \<and> us @ A2 = B2"
    with assms(5) have "b \<in> set A1" by auto
    with assms(1,4) show False by auto
  next
    assume "A1 @ us = B1 \<and> A2 = us @ B2"
    with assms(6) have "a \<in> set A2" by auto
    with assms(1,3) show False by auto
  qed
qed

lemma top_of_stable_sort:
  fixes f :: "'a \<Rightarrow> 'k::linorder"
  assumes d: "distinct xs" and i: "i < length xs" and j: "j < length xs"
    and a: "xs ! i \<in> set (take k (sort_key f xs))"
    and b: "xs ! j \<notin> set (take k (sort_key f xs))"
  shows "f (xs ! i) < f (xs ! j) \<or> (f (xs ! i) = f (xs ! j) \<and> i < j)"
proof -
  let ?s = "sort_key f xs"
  have split: "?s = take k ?s @ drop k ?s" by simp
  have "xs ! j \<in> set ?s" using j by simp
  with b have b': "xs ! j \<in> set (drop k ?s)"
    by (metis Un_iff append_take_drop_id set_append)
  have "sorted (map f (take k ?s @ drop k ?s))" by simp
  then have le: "f (xs ! i) \<le> f (xs ! j)"
    using a b' by (simp only: map_append sorted_append) auto
  show ?thesis
  proof (cases "f (xs ! i) = f (xs ! j)")
    case False
    with le show ?thesis by simp
  next
    case True
    let ?P = "\<lambda>y. f y = f (xs ! i)"
    have "i \<noteq> j" using a b by auto
    have "i < j"
    proof (rule ccontr)
      assume "\<not> i < j"
      with \<open>i \<noteq> j\<close> have ji: "j < i" by simp
      have e1: "filter ?P ?s = filter ?P (take k ?s) @ filter ?P (drop k ?s)"
        by (metis append_take_drop_id filter_append)
      have e2: "filter ?P xs = filter ?P (take i xs) @ filter ?P (drop i xs)"
        by (metis append_take_drop_id filter_append)
      have st: "filter ?P ?s = filter ?P xs"
        by (rule sort_key_stable)
      have dd: "distinct (filter ?P (take k ?s) @ filter ?P (drop k ?s))"
        using d e1 by (metis distinct_filter distinct_sort)
      have m1: "xs ! i \<in> set (filter ?P (take k ?s))" using a by simp
      have m2: "xs ! j \<in> set (filter ?P (drop k ?s))" using b' True by simp
      have "xs ! j \<in> set (take i xs)"
        using ji i by (auto simp: in_set_conv_nth intro!: exI[of _ j])
      then have m3: "xs ! j \<in> set (filter ?P (take i xs))" using True by simp
      have "xs ! i \<in> set (drop i xs)"
        using i by (metis Cons_nth_drop_Suc list.set_intros(1))
      then have m4: "xs ! i \<in> set (filter ?P (drop i xs))" by simp
      from distinct_append_order [OF dd _ m1 m2 m3 m4] e1 e2 st show False
        by simp
    qed
    with True show ?thesis by simp
  qed
qed


lemma word_freqs_Nil: "word_freqs [] = []"
  by (simp add: word_freqs_def findall_words_def lower_def Counter_def)

lemma summary_scored:
  assumes "0 \<le> m" and "m < int (length (split_sentences text))" and "word_freqs text \<noteq> []"
  shows "simple_extractive_summary text m
           = strip (join_sp (filter
               (\<lambda>s. s \<in> snd ` set (take (nat m) (sorted_desc
                  (map (\<lambda>s. (sentence_score (word_freqs text) s, s)) (split_sentences text)))))
               (split_sentences text)))"
proof -
  from assms(3) have "text \<noteq> []"
    using word_freqs_Nil by auto
  with assms show ?thesis
    by (simp add: simple_extractive_summary_def Let_def slice_to_nonneg)
qed

lemma card_positions:
  assumes "distinct xs" and "T \<subseteq> set xs"
  shows "card {i. i < length xs \<and> xs ! i \<in> T} = card T"
proof -
  let ?I = "{i. i < length xs \<and> xs ! i \<in> T}"
  have "inj_on ((!) xs) ?I"
    using assms(1) by (auto simp: inj_on_def nth_eq_iff_index_eq)
  moreover have "(!) xs ` ?I = T"
    using assms(2) by (auto simp: in_set_conv_nth image_iff subset_iff)
  ultimately show ?thesis
    by (metis card_image)
qed

text \<open>
  Claim C2, amended. For a count \<open>max_sentences \<ge> 0\<close> and a text that splits into more
  than \<open>max_sentences\<close> sentences, all distinct, with a non-empty frequency table, there
  is a set \<open>I\<close> of exactly \<open>max_sentences\<close> positions such that every sentence at a
  position of \<open>I\<close> beats every sentence at a position outside: it has a greater score,
  or the same score and an earlier position. The summary is the sentences at the
  positions of \<open>I\<close>, in their order in the text, joined by single spaces, and then
  trimmed of leading and trailing whitespace.
\<close>

theorem summary_selects_top_scoring:
  assumes m0: "0 \<le> m" and mlt: "m < int (length (split_sentences text))"
    and dist: "distinct (split_sentences text)"
    and freqs: "word_freqs text \<noteq> []"
  shows "\<exists>I. I \<subseteq> {..<length (split_sentences text)} \<and> card I = nat m
          \<and> (\<forall>i \<in> I. \<forall>j < length (split_sentences text). j \<notin> I \<longrightarrow>
                sentence_score (word_freqs text) (split_sentences text ! j)
                  < sentence_score (word_freqs text) (split_sentences text ! i)
                \<or> (sentence_score (word_freqs text) (split_sentences text ! j)
                     = sentence_score (word_freqs text) (split_sentences text ! i) \<and> i < j))
          \<and> simple_extractive_summary text m = strip (join_sp (nths (split_sentences text) I))"
proof -
  let ?ss = "split_sentences text"
  let ?sc = "sentence_score (word_freqs text)"
  let ?ps = "map (\<lambda>s. (?sc s, s)) ?ss"
  let ?key = "\<lambda>x::int \<times> string. - fst x"
  let ?top = "take (nat m) (sort_key ?key ?ps)"
  let ?T = "snd ` set ?top"
  let ?I = "{i. i < length ?ss \<and> ?ss ! i \<in> ?T}"
  have dps: "distinct ?ps"
    using dist by (simp add: distinct_map inj_on_def)
  have nth_ps: "?ps ! i = (?sc (?ss ! i), ?ss ! i)" if "i < length ?ss" for i
    using that by simp
  have top_sub: "set ?top \<subseteq> set ?ps"
    using set_take_subset [of "nat m" "sort_key ?key ?ps"] by simp
  have mem: "?ss ! i \<in> ?T \<longleftrightarrow> ?ps ! i \<in> set ?top" if "i < length ?ss" for i
  proof
    assume "?ss ! i \<in> ?T"
    then obtain p where p: "p \<in> set ?top" "snd p = ?ss ! i" by auto
    with top_sub have "p \<in> set ?ps" by auto
    then have "p = (?sc (snd p), snd p)" by auto
    with p that show "?ps ! i \<in> set ?top" by simp
  next
    assume "?ps ! i \<in> set ?top"
    then have "snd (?ps ! i) \<in> ?T" by (rule imageI)
    with that show "?ss ! i \<in> ?T" by simp
  qed
  have sub: "?I \<subseteq> {..<length ?ss}" by auto
  have dtop: "distinct (map snd ?top)"
  proof -
    have "inj_on snd (set ?ps)"
      by (auto simp: inj_on_def)
    with dps have "distinct (map snd (sort_key ?key ?ps))"
      by (simp only: distinct_map distinct_sort set_sort)
    then have "distinct (take (nat m) (map snd (sort_key ?key ?ps)))"
      by (rule distinct_take)
    then show ?thesis
      by (simp only: take_map)
  qed
  have "?T \<subseteq> set ?ss"
    using top_sub by auto
  with dist have "card ?I = card ?T"
    by (rule card_positions)
  also have "\<dots> = length (map snd ?top)"
    using distinct_card [OF dtop] by simp
  also have "\<dots> = nat m"
    using mlt by simp
  finally have card: "card ?I = nat m" .
  have ord: "?sc (?ss ! j) < ?sc (?ss ! i) \<or> (?sc (?ss ! j) = ?sc (?ss ! i) \<and> i < j)"
    if "i \<in> ?I" and "j < length ?ss" and "j \<notin> ?I" for i j
  proof -
    from that have i: "i < length ?ps" and j: "j < length ?ps" by simp_all
    from that mem have a: "?ps ! i \<in> set ?top" and b: "?ps ! j \<notin> set ?top" by auto
    from top_of_stable_sort [OF dps i j a b] that show ?thesis
      by (simp add: nth_ps) linarith
  qed
  have out: "simple_extractive_summary text m = strip (join_sp (nths ?ss ?I))"
    by (simp only: summary_scored [OF m0 mlt freqs] sorted_desc_def filter_eq_nths)
  from sub card ord out show ?thesis
    by blast
qed


theorem summary_selects_top_scoring_witness:
  "(0::int) \<le> 2
   \<and> 2 < int (length (split_sentences ''cats purr. dogs bark. cats nap. the end.''))
   \<and> distinct (split_sentences ''cats purr. dogs bark. cats nap. the end.'')
   \<and> word_freqs ''cats purr. dogs bark. cats nap. the end.'' \<noteq> []
   \<and> (\<exists>I. I \<subseteq> {..<length (split_sentences ''cats purr. dogs bark. cats nap. the end.'')}
          \<and> card I = nat 2
          \<and> (\<forall>i \<in> I. \<forall>j < length (split_sentences ''cats purr. dogs bark. cats nap. the end.'').
                j \<notin> I \<longrightarrow>
                sentence_score (word_freqs ''cats purr. dogs bark. cats nap. the end.'')
                    (split_sentences ''cats purr. dogs bark. cats nap. the end.'' ! j)
                  < sentence_score (word_freqs ''cats purr. dogs bark. cats nap. the end.'')
                      (split_sentences ''cats purr. dogs bark. cats nap. the end.'' ! i)
                \<or> (sentence_score (word_freqs ''cats purr. dogs bark. cats nap. the end.'')
                       (split_sentences ''cats purr. dogs bark. cats nap. the end.'' ! j)
                     = sentence_score (word_freqs ''cats purr. dogs bark. cats nap. the end.'')
                         (split_sentences ''cats purr. dogs bark. cats nap. the end.'' ! i)
                    \<and> i < j))
          \<and> simple_extractive_summary ''cats purr. dogs bark. cats nap. the end.'' 2
              = strip (join_sp (nths (split_sentences ''cats purr. dogs bark. cats nap. the end.'') I)))
   \<and> simple_extractive_summary ''cats purr. dogs bark. cats nap. the end.'' 2
       = ''cats purr. cats nap.''"
proof -
  have h1: "(0::int) \<le> 2"
    by simp
  have h2: "2 < int (length (split_sentences ''cats purr. dogs bark. cats nap. the end.''))"
    by code_simp
  have h3: "distinct (split_sentences ''cats purr. dogs bark. cats nap. the end.'')"
    by code_simp
  have h4: "word_freqs ''cats purr. dogs bark. cats nap. the end.'' \<noteq> []"
    by code_simp
  have v: "simple_extractive_summary ''cats purr. dogs bark. cats nap. the end.'' 2
             = ''cats purr. cats nap.''"
    by code_simp
  from summary_selects_top_scoring [OF h1 h2 h3 h4] h1 h2 h3 h4 v show ?thesis
    by (intro conjI)
qed

text \<open>
  Claim C2 as stated fails when the selected sentences begin or end with whitespace: the
  text \<open>" foo. an"\<close> has the two distinct sentences \<open>" foo."\<close> (score 1) and
  \<open>"an"\<close> (score 0); with \<open>max_sentences = 1\<close> the summary is \<open>"foo."\<close>, which is
  not the selected sentence \<open>" foo."\<close>.
\<close>

theorem summary_trims_selected_sentence:
  "split_sentences '' foo. an'' = ['' foo.'', ''an'']
   \<and> distinct (split_sentences '' foo. an'')
   \<and> word_freqs '' foo. an'' = [(''foo'', 1)]
   \<and> sentence_score (word_freqs '' foo. an'') '' foo.'' = 1
   \<and> sentence_score (word_freqs '' foo. an'') ''an'' = 0
   \<and> simple_extractive_summary '' foo. an'' 1 = ''foo.''
   \<and> simple_extractive_summary '' foo. an'' 1 \<noteq> join_sp ['' foo.'']"
  by code_simp

subsection \<open>The summary as a subsequence of the sentences\<close>

lemma terminal_not_space: "is_terminal c \<Longrightarrow> \<not> is_space c"
  by (auto simp: is_terminal_def is_space_def code_def)

lemma is_space_blank: "is_space CHR '' ''"
  by (simp add: is_space_def code_def)

lemma split_sentences_not_Nil: "split_sentences t \<noteq> []"
  by (induction t rule: split_sentences.induct) (auto split: list.splits elim: attach.elims)

lemma attach_eq: "xs \<noteq> [] \<Longrightarrow> attach c xs = (c # hd xs) # tl xs"
  by (cases xs) simp_all

lemma split_sentences_Cons:
  "split_sentences (c # cs) =
     (if at_boundary c cs then [c] # split_sentences (dropWhile is_space cs)
      else (c # hd (split_sentences cs)) # tl (split_sentences cs))"
  by (simp add: attach_eq split_sentences_not_Nil)

lemma hd_split_sentences:
  "t \<noteq> [] \<Longrightarrow> hd (split_sentences t) \<noteq> [] \<and> hd (hd (split_sentences t)) = hd t"
  by (cases t) (simp_all add: attach_eq split_sentences_not_Nil)

lemma hd_split_sentences_Nil: "hd (split_sentences t) = [] \<longleftrightarrow> t = []"
  using hd_split_sentences [of t] by (cases t) auto

lemma at_boundary_hd:
  "at_boundary c (hd (split_sentences cs)) \<longleftrightarrow> at_boundary c cs"
proof (cases cs)
  case Nil
  then show ?thesis by simp
next
  case (Cons d ds)
  then have "hd (split_sentences cs) \<noteq> []" and "hd (hd (split_sentences cs)) = d"
    using hd_split_sentences [of cs] by simp_all
  with Cons show ?thesis
    by (cases "hd (split_sentences cs)") (simp_all add: at_boundary_def)
qed

lemma pieces_atomic: "e \<in> set (split_sentences t) \<Longrightarrow> split_sentences e = [e]"
proof (induction t arbitrary: e rule: split_sentences.induct)
  case 1
  then show ?case by simp
next
  case (2 c cs)
  show ?case
  proof (cases "at_boundary c cs")
    case True
    with "2.prems" have "e = [c] \<or> e \<in> set (split_sentences (dropWhile is_space cs))"
      by simp
    then show ?thesis
    proof
      assume "e = [c]"
      then show ?thesis by (simp add: at_boundary_def)
    next
      assume "e \<in> set (split_sentences (dropWhile is_space cs))"
      with True show ?thesis by (rule "2.IH"(1))
    qed
  next
    case False
    let ?ps = "split_sentences cs"
    from False "2.prems" have "e = c # hd ?ps \<or> e \<in> set (tl ?ps)"
      by (simp add: attach_eq split_sentences_not_Nil)
    then show ?thesis
    proof
      assume e: "e = c # hd ?ps"
      have "hd ?ps \<in> set ?ps"
        by (simp add: split_sentences_not_Nil)
      with False have "split_sentences (hd ?ps) = [hd ?ps]"
        by (rule "2.IH"(2))
      moreover from False have "\<not> at_boundary c (hd ?ps)"
        by (simp add: at_boundary_hd)
      ultimately show ?thesis
        using e by simp
    next
      assume "e \<in> set (tl ?ps)"
      then have "e \<in> set ?ps"
        by (rule list.set_sel(2) [rotated]) (simp add: split_sentences_not_Nil)
      with False show ?thesis by (rule "2.IH"(2))
    qed
  qed
qed


lemma at_boundary_terminal: "at_boundary c cs \<Longrightarrow> is_terminal c"
  by (simp add: at_boundary_def)

lemma at_boundary_not_Nil: "at_boundary c cs \<Longrightarrow> cs \<noteq> []"
  by (auto simp: at_boundary_def)

lemma later_pieces_start:
  "e \<in> set (tl (split_sentences t)) \<Longrightarrow> e = [] \<or> \<not> is_space (hd e)"
proof (induction t arbitrary: e rule: split_sentences.induct)
  case 1
  then show ?case by simp
next
  case (2 c cs)
  show ?case
  proof (cases "at_boundary c cs")
    case True
    let ?t = "dropWhile is_space cs"
    from True "2.prems" have "e \<in> set (split_sentences ?t)"
      by simp
    then have "e = hd (split_sentences ?t) \<or> e \<in> set (tl (split_sentences ?t))"
      by (cases "split_sentences ?t") auto
    then show ?thesis
    proof
      assume e: "e = hd (split_sentences ?t)"
      show ?thesis
      proof (cases "?t = []")
        case True
        with e show ?thesis by simp
      next
        case False
        then have "\<not> is_space (hd ?t)" by (rule hd_dropWhile)
        with False e show ?thesis
          using hd_split_sentences [of ?t] by simp
      qed
    next
      assume "e \<in> set (tl (split_sentences ?t))"
      with True show ?thesis by (rule "2.IH"(1))
    qed
  next
    case False
    with "2.prems" have "e \<in> set (tl (split_sentences cs))"
      by (simp add: attach_eq split_sentences_not_Nil)
    with False show ?thesis by (rule "2.IH"(2))
  qed
qed

lemma butlast_hd_tl: "tl xs \<noteq> [] \<Longrightarrow> butlast xs = hd xs # butlast (tl xs)"
  by (cases xs) auto

lemma earlier_pieces_end:
  "e \<in> set (butlast (split_sentences t)) \<Longrightarrow> e \<noteq> [] \<and> is_terminal (last e)"
proof (induction t arbitrary: e rule: split_sentences.induct)
  case 1
  then show ?case by simp
next
  case (2 c cs)
  show ?case
  proof (cases "at_boundary c cs")
    case True
    with "2.prems" have "e = [c] \<or> e \<in> set (butlast (split_sentences (dropWhile is_space cs)))"
      by (simp add: split_sentences_not_Nil)
    then show ?thesis
    proof
      assume "e = [c]"
      with True show ?thesis by (simp add: at_boundary_terminal)
    next
      assume "e \<in> set (butlast (split_sentences (dropWhile is_space cs)))"
      with True show ?thesis by (rule "2.IH"(1))
    qed
  next
    case False
    let ?ps = "split_sentences cs"
    from False "2.prems" have mem: "e \<in> set (butlast ((c # hd ?ps) # tl ?ps))"
      by (simp add: attach_eq split_sentences_not_Nil)
    show ?thesis
    proof (cases "tl ?ps = []")
      case True
      with mem show ?thesis by simp
    next
      case nonempty: False
      then have b: "butlast ?ps = hd ?ps # butlast (tl ?ps)"
        by (rule butlast_hd_tl)
      from mem nonempty have "e = c # hd ?ps \<or> e \<in> set (butlast (tl ?ps))"
        by simp
      then show ?thesis
      proof
        assume e: "e = c # hd ?ps"
        have "hd ?ps \<in> set (butlast ?ps)"
          by (simp add: b)
        with False have "hd ?ps \<noteq> [] \<and> is_terminal (last (hd ?ps))"
          by (rule "2.IH"(2))
        with e show ?thesis by simp
      next
        assume "e \<in> set (butlast (tl ?ps))"
        then have "e \<in> set (butlast ?ps)"
          by (simp add: b)
        with False show ?thesis by (rule "2.IH"(2))
      qed
    qed
  qed
qed

lemma last_dropWhile:
  assumes "cs \<noteq> []" and "\<not> P (last cs)"
  shows "dropWhile P cs \<noteq> [] \<and> last (dropWhile P cs) = last cs"
proof -
  from assms have ne: "dropWhile P cs \<noteq> []"
    by (auto simp: dropWhile_eq_Nil_conv)
  from ne have "last (takeWhile P cs @ dropWhile P cs) = last (dropWhile P cs)"
    by (rule last_appendR)
  then have "last cs = last (dropWhile P cs)"
    by (simp only: takeWhile_dropWhile_id)
  with ne show ?thesis
    by simp
qed

lemma last_piece_end:
  "t \<noteq> [] \<Longrightarrow> \<not> is_space (last t) \<Longrightarrow>
     last (split_sentences t) \<noteq> [] \<and> last (last (split_sentences t)) = last t"
proof (induction t rule: split_sentences.induct)
  case 1
  then show ?case by simp
next
  case (2 c cs)
  show ?case
  proof (cases "at_boundary c cs")
    case True
    let ?t = "dropWhile is_space cs"
    from True have cs: "cs \<noteq> []" by (rule at_boundary_not_Nil)
    with "2.prems" have sp: "\<not> is_space (last cs)" by simp
    from cs sp have t: "?t \<noteq> [] \<and> last ?t = last cs"
      by (rule last_dropWhile)
    with sp have "last (split_sentences ?t) \<noteq> [] \<and> last (last (split_sentences ?t)) = last ?t"
      using "2.IH"(1) [OF True] by simp
    with True t cs show ?thesis
      by (simp add: split_sentences_not_Nil)
  next
    case False
    let ?ps = "split_sentences cs"
    show ?thesis
    proof (cases "cs = []")
      case True
      with False show ?thesis by simp
    next
      case ne: False
      with "2.prems" have "\<not> is_space (last cs)" by simp
      with ne have IH: "last ?ps \<noteq> [] \<and> last (last ?ps) = last cs"
        using "2.IH"(2) [OF False] by simp
      show ?thesis
      proof (cases "tl ?ps = []")
        case True
        then have "?ps = [hd ?ps]"
          by (metis list.collapse split_sentences_not_Nil)
        then have "last ?ps = hd ?ps"
          by (metis last.simps)
        with IH False True ne show ?thesis
          by (simp add: attach_eq split_sentences_not_Nil)
      next
        case tl: False
        then have "last ?ps = last (tl ?ps)"
          by (metis last_tl list.sel(2))
        with IH False tl ne show ?thesis
          by (simp add: attach_eq split_sentences_not_Nil)
      qed
    qed
  qed
qed


lemma split_sentences_single_Cons:
  assumes "split_sentences (c # s) = [c # s]"
  shows "\<not> at_boundary c s \<and> split_sentences s = [s]"
proof -
  have nb: "\<not> at_boundary c s"
  proof
    assume "at_boundary c s"
    with assms show False by (simp add: split_sentences_not_Nil)
  qed
  with assms have "(c # hd (split_sentences s)) # tl (split_sentences s) = [c # s]"
    by (simp add: attach_eq split_sentences_not_Nil)
  then have "hd (split_sentences s) = s" and "tl (split_sentences s) = []"
    by simp_all
  then have "split_sentences s = [s]"
    by (metis list.collapse split_sentences_not_Nil)
  with nb show ?thesis by simp
qed

lemma at_boundary_append: "s \<noteq> [] \<Longrightarrow> at_boundary c (s @ t) = at_boundary c s"
  by (cases s) (simp_all add: at_boundary_def)

lemma split_sentences_append_blank:
  assumes "split_sentences s = [s]" and "s \<noteq> []" and "is_terminal (last s)"
    and "t = [] \<or> \<not> is_space (hd t)"
  shows "split_sentences (s @ CHR '' '' # t) = s # split_sentences t"
  using assms(1-3)
proof (induction s)
  case Nil
  then show ?case by simp
next
  case (Cons c s)
  from assms(4) have t: "dropWhile is_space t = t"
    by (simp add: dropWhile_eq_self_iff)
  show ?case
  proof (cases "s = []")
    case True
    with Cons.prems have "is_terminal c" by simp
    then have "at_boundary c (CHR '' '' # t)"
      by (simp add: at_boundary_def is_space_blank)
    with True t show ?thesis
      by (simp add: is_space_blank)
  next
    case False
    from Cons.prems(1) have nb: "\<not> at_boundary c s" and one: "split_sentences s = [s]"
      using split_sentences_single_Cons by blast+
    from False Cons.prems(3) have "is_terminal (last s)" by simp
    with one False have "split_sentences (s @ CHR '' '' # t) = s # split_sentences t"
      by (rule Cons.IH)
    moreover from False nb have "\<not> at_boundary c (s @ CHR '' '' # t)"
      by (simp add: at_boundary_append)
    ultimately show ?thesis by simp
  qed
qed

lemma join_sp_Cons: "ys \<noteq> [] \<Longrightarrow> join_sp (x # ys) = x @ CHR '' '' # join_sp ys"
  by (cases ys) simp_all

lemma hd_join_sp: "x \<noteq> [] \<Longrightarrow> hd (join_sp (x # ys)) = hd x"
  by (cases ys) simp_all

lemma join_sp_not_Nil: "x \<noteq> [] \<Longrightarrow> join_sp (x # ys) \<noteq> []"
  by (cases ys) simp_all

lemma join_sp_last_not_Nil: "sub \<noteq> [] \<Longrightarrow> last sub \<noteq> [] \<Longrightarrow> join_sp sub \<noteq> []"
  by (induction sub rule: join_sp.induct) simp_all

lemma last_join_sp:
  "sub \<noteq> [] \<Longrightarrow> last sub \<noteq> [] \<Longrightarrow> last (join_sp sub) = last (last sub)"
proof (induction sub rule: join_sp.induct)
  case 1
  then show ?case by simp
next
  case (2 x)
  then show ?case by simp
next
  case (3 x y ys)
  then have "join_sp (y # ys) \<noteq> []"
    by (intro join_sp_last_not_Nil) simp_all
  with 3 show ?case by simp
qed

lemma split_sentences_join_sp:
  assumes "sub \<noteq> []"
    and "\<And>e. e \<in> set sub \<Longrightarrow> split_sentences e = [e] \<and> e \<noteq> [] \<and> \<not> is_space (hd e)"
    and "\<And>e. e \<in> set (butlast sub) \<Longrightarrow> is_terminal (last e)"
  shows "split_sentences (join_sp sub) = sub"
  using assms
proof (induction sub rule: join_sp.induct)
  case 1
  then show ?case by simp
next
  case (2 x)
  then show ?case by simp
next
  case (3 x y ys)
  have x: "split_sentences x = [x]" "x \<noteq> []" "is_terminal (last x)"
    using "3.prems"(2) [of x] "3.prems"(3) [of x] by simp_all
  have y: "y \<noteq> []" "\<not> is_space (hd y)"
    using "3.prems"(2) [of y] by simp_all
  have IH: "split_sentences (join_sp (y # ys)) = y # ys"
  proof (rule "3.IH")
    show "y # ys \<noteq> []" by simp
    show "split_sentences e = [e] \<and> e \<noteq> [] \<and> \<not> is_space (hd e)" if "e \<in> set (y # ys)" for e
      using "3.prems"(2) [of e] that by simp
    show "is_terminal (last e)" if "e \<in> set (butlast (y # ys))" for e
      using "3.prems"(3) [of e] that by simp
  qed
  from y have "join_sp (y # ys) = [] \<or> \<not> is_space (hd (join_sp (y # ys)))"
    by (simp add: hd_join_sp)
  with x have "split_sentences (x @ CHR '' '' # join_sp (y # ys))
                 = x # split_sentences (join_sp (y # ys))"
    by (intro split_sentences_append_blank)
  with IH show ?case by simp
qed

lemma strip_self:
  assumes "s \<noteq> []" and "\<not> is_space (hd s)" and "\<not> is_space (last s)"
  shows "strip s = s"
proof -
  from assms(2) have "dropWhile is_space s = s"
    by (simp add: dropWhile_eq_self_iff)
  moreover from assms(1,3) have "dropWhile is_space (rev s) = rev s"
    by (simp add: dropWhile_eq_self_iff hd_rev)
  ultimately show ?thesis
    by (simp add: strip_def)
qed

lemma strip_eq_self:
  assumes "strip s = s" and "s \<noteq> []"
  shows "\<not> is_space (hd s) \<and> \<not> is_space (last s)"
proof -
  let ?d = "dropWhile is_space s"
  let ?r = "dropWhile is_space (rev ?d)"
  from assms have r: "rev ?r = s" by (simp add: strip_def)
  then have "length s = length ?r" by (metis length_rev)
  also have "\<dots> \<le> length (rev ?d)" by (rule length_dropWhile_le)
  finally have "length s \<le> length ?d" by simp
  moreover have "length ?d \<le> length s" by (rule length_dropWhile_le)
  ultimately have "length ?d = length s" by simp
  moreover have "s = takeWhile is_space s @ ?d" by simp
  ultimately have "takeWhile is_space s = []"
    by (metis add_cancel_right_left length_0_conv length_append)
  then have d: "?d = s"
    by (metis append_Nil takeWhile_dropWhile_id)
  with assms(2) have h: "\<not> is_space (hd s)"
    by (metis hd_dropWhile)
  from r d have "dropWhile is_space (rev s) = rev s"
    by (metis rev_rev_ident)
  with assms(2) have "\<not> is_space (hd (rev s))"
    by (metis hd_dropWhile rev_is_Nil_conv)
  with h show ?thesis by (simp add: hd_rev)
qed

lemma trimmed_pieces:
  assumes "text \<noteq> []" and "\<not> is_space (hd text)" and "\<not> is_space (last text)"
    and "e \<in> set (split_sentences text)"
  shows "split_sentences e = [e] \<and> e \<noteq> [] \<and> \<not> is_space (hd e) \<and> \<not> is_space (last e)"
proof -
  let ?ss = "split_sentences text"
  have atomic: "split_sentences e = [e]"
    using assms(4) by (rule pieces_atomic)
  have ss: "?ss = butlast ?ss @ [last ?ss]"
    by (simp add: split_sentences_not_Nil)
  have ends: "e \<noteq> [] \<and> \<not> is_space (last e)"
  proof (cases "e \<in> set (butlast ?ss)")
    case True
    then show ?thesis
      using earlier_pieces_end terminal_not_space by blast
  next
    case False
    from assms(4) have "e \<in> set (butlast ?ss @ [last ?ss])"
      by (simp only: ss [symmetric])
    with False have "e = last ?ss"
      by simp
    with assms(1,3) show ?thesis
      using last_piece_end [of "text"] by simp
  qed
  have "e = hd ?ss \<or> e \<in> set (tl ?ss)"
    using assms(4) by (cases ?ss) auto
  then have "\<not> is_space (hd e)"
  proof
    assume "e = hd ?ss"
    with assms(1,2) show ?thesis
      using hd_split_sentences [of "text"] by simp
  next
    assume "e \<in> set (tl ?ss)"
    with ends show ?thesis
      using later_pieces_start by blast
  qed
  with atomic ends show ?thesis by simp
qed

lemma subseq_butlast:
  "subseq sub ss \<Longrightarrow> e \<in> set (butlast sub) \<Longrightarrow> e \<in> set (butlast ss)"
proof (induction sub arbitrary: ss)
  case Nil
  then show ?case by simp
next
  case (Cons x xs)
  from Cons.prems(1) obtain us vs where ss: "ss = us @ x # vs" and emb: "subseq xs vs"
    using list_emb_ConsD [of "(=)" x xs ss] by blast
  from Cons.prems(2) have xs: "xs \<noteq> []"
    by (cases xs) simp_all
  have vs: "vs \<noteq> []"
  proof
    assume "vs = []"
    with emb have "xs = []" by simp
    with xs show False by simp
  qed
  from xs Cons.prems(2) have "e = x \<or> e \<in> set (butlast xs)"
    by simp
  then have "e = x \<or> e \<in> set (butlast vs)"
    using Cons.IH [OF emb] by blast
  with ss vs show ?case
    by (auto simp: butlast_append)
qed

lemma summary_as_join:
  "\<exists>sub. subseq sub (split_sentences text)
     \<and> simple_extractive_summary text m = strip (join_sp sub)
     \<and> (1 \<le> m \<longrightarrow> sub \<noteq> [])"
proof -
  let ?ss = "split_sentences text"
  let ?out = "simple_extractive_summary text m"
  have ne: "?ss \<noteq> []" by (rule split_sentences_not_Nil)
  consider (empty) "text = []"
    | (few) "text \<noteq> []" "int (length ?ss) \<le> m"
    | (unscored) "text \<noteq> []" "\<not> int (length ?ss) \<le> m" "word_freqs text = []"
    | (scored) "text \<noteq> []" "\<not> int (length ?ss) \<le> m" "word_freqs text \<noteq> []"
    by blast
  then show ?thesis
  proof cases
    case empty
    then have "subseq [[]] ?ss" and "?out = strip (join_sp [[]])"
      by (simp_all add: simple_extractive_summary_def strip_def)
    then show ?thesis by blast
  next
    case few
    then have "?out = strip (join_sp ?ss)"
      by (simp add: simple_extractive_summary_def)
    with ne show ?thesis by blast
  next
    case unscored
    let ?sub = "slice_to ?ss m"
    have "subseq ?sub ?ss"
      by (simp add: slice_to_def sublist_imp_subseq)
    moreover from unscored have "?out = strip (join_sp ?sub)"
      by (simp add: simple_extractive_summary_def)
    moreover have "1 \<le> m \<longrightarrow> ?sub \<noteq> []"
      using ne by (auto simp: slice_to_def)
    ultimately show ?thesis by blast
  next
    case scored
    let ?ps = "map (\<lambda>s. (sentence_score (word_freqs text) s, s)) ?ss"
    let ?top = "slice_to (sorted_desc ?ps) m"
    let ?sub = "filter (\<lambda>s. s \<in> set (map snd ?top)) ?ss"
    have "subseq ?sub ?ss" by simp
    moreover from scored have "?out = strip (join_sp ?sub)"
      by (simp add: simple_extractive_summary_def Let_def)
    moreover have "?sub \<noteq> []" if "1 \<le> m"
    proof -
      have "length (sorted_desc ?ps) = length ?ss"
        by (simp add: sorted_desc_def)
      with that ne have "hd (sorted_desc ?ps) \<in> set ?top"
        by (cases "sorted_desc ?ps"; cases "nat m") (simp_all add: slice_to_def)
      moreover have "hd (sorted_desc ?ps) \<in> set (sorted_desc ?ps)"
        using ne \<open>length (sorted_desc ?ps) = length ?ss\<close> by (cases "sorted_desc ?ps") simp_all
      then have "snd (hd (sorted_desc ?ps)) \<in> set ?ss"
        by (auto simp: sorted_desc_def)
      ultimately have "\<exists>s \<in> set ?ss. s \<in> set (map snd ?top)"
        by (intro bexI [of _ "snd (hd (sorted_desc ?ps))"]) simp_all
      then show ?thesis
        by (simp add: filter_empty_conv)
    qed
    ultimately show ?thesis by blast
  qed
qed

text \<open>
  Claim C4, amended. For every input text the summary is the single-space join, trimmed
  of leading and trailing whitespace, of a subsequence (by position, order preserved) of
  the sentences obtained by splitting the text. When the text has no leading or trailing
  whitespace and \<open>max_sentences \<ge> 1\<close>, the sentences obtained by splitting the
  summary are themselves such a subsequence, and the summary is exactly their join: every
  sentence of the summary is a verbatim sentence of the source.
\<close>

theorem summary_is_trimmed_join_of_subsequence:
  "(\<exists>sub. subseq sub (split_sentences text)
      \<and> simple_extractive_summary text m = strip (join_sp sub))
   \<and> (1 \<le> m \<and> strip text = text \<longrightarrow>
        subseq (split_sentences (simple_extractive_summary text m)) (split_sentences text)
        \<and> simple_extractive_summary text m
            = join_sp (split_sentences (simple_extractive_summary text m)))"
proof -
  let ?ss = "split_sentences text"
  let ?out = "simple_extractive_summary text m"
  obtain sub where sub: "subseq sub ?ss" "?out = strip (join_sp sub)" "1 \<le> m \<longrightarrow> sub \<noteq> []"
    using summary_as_join by blast
  have second: "subseq (split_sentences ?out) ?ss \<and> ?out = join_sp (split_sentences ?out)"
    if m: "1 \<le> m" and trimmed: "strip text = text"
  proof (cases "text = []")
    case True
    then show ?thesis by (simp add: simple_extractive_summary_def)
  next
    case False
    with trimmed have ends: "\<not> is_space (hd text)" "\<not> is_space (last text)"
      using strip_eq_self by blast+
    from m sub have ne: "sub \<noteq> []" by simp
    have mem: "e \<in> set ?ss" if "e \<in> set sub" for e
    proof -
      from sub(1) that obtain y where "y \<in> set ?ss" and "e = y"
        by (rule list_emb_set)
      then show ?thesis by simp
    qed
    have solid: "split_sentences e = [e] \<and> e \<noteq> [] \<and> \<not> is_space (hd e) \<and> \<not> is_space (last e)"
      if "e \<in> set sub" for e
      using False ends mem [OF that] by (rule trimmed_pieces)
    have ended: "is_terminal (last e)" if "e \<in> set (butlast sub)" for e
    proof -
      from sub(1) that have "e \<in> set (butlast ?ss)"
        by (rule subseq_butlast)
      then show ?thesis
        using earlier_pieces_end by blast
    qed
    have sp: "split_sentences (join_sp sub) = sub"
      using ne solid ended by (intro split_sentences_join_sp) blast+
    have h: "hd sub \<in> set sub" and l: "last sub \<in> set sub"
      using ne by simp_all
    have j: "join_sp sub = join_sp (hd sub # tl sub)"
      using ne by simp
    have "join_sp sub \<noteq> []"
      using solid [OF h] by (subst j) (simp add: join_sp_not_Nil)
    moreover have "\<not> is_space (hd (join_sp sub))"
      using solid [OF h] by (subst j) (simp add: hd_join_sp)
    moreover have "\<not> is_space (last (join_sp sub))"
      using solid [OF l] ne by (simp add: last_join_sp)
    ultimately have "strip (join_sp sub) = join_sp sub"
      by (rule strip_self)
    with sub(2) have "?out = join_sp sub" by simp
    with sp sub(1) show ?thesis by simp
  qed
  from sub second show ?thesis
    by blast
qed

theorem summary_is_trimmed_join_of_subsequence_witness:
  "(1::int) \<le> 3 \<and> strip ''A. B. C. D.'' = ''A. B. C. D.''
   \<and> subseq (split_sentences (simple_extractive_summary ''A. B. C. D.'' 3))
        (split_sentences ''A. B. C. D.'')
   \<and> simple_extractive_summary ''A. B. C. D.'' 3
       = join_sp (split_sentences (simple_extractive_summary ''A. B. C. D.'' 3))
   \<and> split_sentences (simple_extractive_summary ''A. B. C. D.'' 3) = [''A.'', ''B.'', ''C.'']
   \<and> split_sentences ''A. B. C. D.'' = [''A.'', ''B.'', ''C.'', ''D.'']"
proof -
  have h1: "(1::int) \<le> 3"
    by simp
  have h2: "strip ''A. B. C. D.'' = ''A. B. C. D.''"
    by code_simp
  have v: "split_sentences (simple_extractive_summary ''A. B. C. D.'' 3) = [''A.'', ''B.'', ''C.'']"
    by code_simp
  have w: "split_sentences ''A. B. C. D.'' = [''A.'', ''B.'', ''C.'', ''D.'']"
    by code_simp
  from summary_is_trimmed_join_of_subsequence [of "''A. B. C. D.''" 3] h1 h2
  have "subseq (split_sentences (simple_extractive_summary ''A. B. C. D.'' 3))
          (split_sentences ''A. B. C. D.'')
        \<and> simple_extractive_summary ''A. B. C. D.'' 3
            = join_sp (split_sentences (simple_extractive_summary ''A. B. C. D.'' 3))"
    by blast
  with h1 h2 v w show ?thesis
    by blast
qed

text \<open>
  Claim C4 as stated fails for a text that ends in whitespace (as a preview cut at 800
  characters can): the last sentence of \<open>"Cats purr. Dogs bark "\<close> is
  \<open>"Dogs bark "\<close>, the summary ends with \<open>"Dogs bark"\<close>, which is no sentence
  of the source.
\<close>

theorem summary_trims_last_sentence:
  "split_sentences ''Cats purr. Dogs bark '' = [''Cats purr.'', ''Dogs bark '']
   \<and> simple_extractive_summary ''Cats purr. Dogs bark '' 3 = ''Cats purr. Dogs bark''
   \<and> split_sentences (simple_extractive_summary ''Cats purr. Dogs bark '' 3)
       = [''Cats purr.'', ''Dogs bark'']
   \<and> ''Dogs bark'' \<notin> set (split_sentences ''Cats purr. Dogs bark '')
   \<and> \<not> subseq (split_sentences (simple_extractive_summary ''Cats purr. Dogs bark '' 3))
          (split_sentences ''Cats purr. Dogs bark '')"
  by code_simp

section \<open>Properties of the pipeline\<close>

lemma summarize_loop_eq:
  "summarize_loop E g k a i us acc
     = acc @ map (\<lambda>(j, u). summarize_one E g k a j u) (zip [i ..< i + length us] us)"
proof (induction us arbitrary: i acc)
  case Nil
  then show ?case by simp
next
  case (Cons u us)
  have "[i ..< i + length (u # us)] = i # [Suc i ..< Suc i + length us]"
    by (simp add: upt_rec)
  with Cons show ?case by simp
qed

lemma summarize_urls_eq:
  "summarize_urls E urls g k a
     = map (\<lambda>(j, u). summarize_one E g k a j u) (zip [1 ..< 1 + length urls] urls)"
  by (simp add: summarize_urls_def summarize_loop_eq)

lemma length_summarize_urls: "length (summarize_urls E urls g k a) = length urls"
  by (simp add: summarize_urls_eq del: upt_Suc)

lemma summarize_urls_nth:
  assumes "n < length urls"
  shows "summarize_urls E urls g k a ! n = summarize_one E g k a (Suc n) (urls ! n)"
  using assms by (simp add: summarize_urls_eq del: upt_Suc)

lemma url_summarize_one: "url (summarize_one E g k a i u) = u"
  by (simp add: summarize_one_def Let_def)

lemma map_url_summarize_urls: "map url (summarize_urls E urls g k a) = urls"
  by (rule nth_equalityI) (simp_all add: length_summarize_urls summarize_urls_nth url_summarize_one)

lemma summarize_one_fetch_failed:
  "\<not> truthy (fetch_page E i u) \<Longrightarrow>
     summarize_one E g k a i u
       = \<lparr>url = u, title = [], meta_description = [], summary = [], notes' = ''fetch_failed''\<rparr>"
  by (simp add: summarize_one_def Let_def)

text \<open>
  Claim C6. For every list of \<open>N\<close> URLs the run returns exactly \<open>N\<close> records, the
  \<open>n\<close>-th one for the \<open>n\<close>-th URL; and every URL whose fetch returns no content
  (\<open>None\<close>, or an empty page) yields the record with empty title, description and
  summary and the note \<open>fetch_failed\<close>.
\<close>

theorem summarize_urls_one_result_per_url:
  "length (summarize_urls E urls g k a) = length urls
   \<and> map url (summarize_urls E urls g k a) = urls
   \<and> (\<forall>n < length urls. \<not> truthy (fetch_page E (Suc n) (urls ! n)) \<longrightarrow>
         summarize_urls E urls g k a ! n
           = \<lparr>url = urls ! n, title = [], meta_description = [], summary = [],
              notes' = ''fetch_failed''\<rparr>)"
  by (simp add: length_summarize_urls map_url_summarize_urls summarize_urls_nth
        summarize_one_fetch_failed)


theorem summarize_urls_reports_failed_fetch_witness:
  "length (summarize_urls sample_env [''http://down.example'', ''http://up.example'']
             False None None) = 2
   \<and> map url (summarize_urls sample_env [''http://down.example'', ''http://up.example'']
               False None None)
       = [''http://down.example'', ''http://up.example'']
   \<and> \<not> truthy (fetch_page sample_env (Suc 0)
                 ([''http://down.example'', ''http://up.example''] ! 0))
   \<and> summarize_urls sample_env [''http://down.example'', ''http://up.example''] False None None ! 0
       = \<lparr>url = ''http://down.example'', title = [], meta_description = [], summary = [],
          notes' = ''fetch_failed''\<rparr>"
proof -
  let ?urls = "[''http://down.example'', ''http://up.example'']"
  note inst = summarize_urls_one_result_per_url [of sample_env ?urls False None None]
  have f: "\<not> truthy (fetch_page sample_env (Suc 0) (?urls ! 0))"
    by code_simp
  have n: "(0::nat) < length ?urls"
    by simp
  have u: "?urls ! 0 = ''http://down.example''"
    by simp
  from inst have "length (summarize_urls sample_env ?urls False None None) = length ?urls"
    by (rule conjunct1)
  then have c1: "length (summarize_urls sample_env ?urls False None None) = 2"
    by simp
  from inst have c2: "map url (summarize_urls sample_env ?urls False None None) = ?urls"
    by blast
  from inst n f have "summarize_urls sample_env ?urls False None None ! 0
       = \<lparr>url = ?urls ! 0, title = [], meta_description = [], summary = [],
          notes' = ''fetch_failed''\<rparr>"
    by blast
  then have c3: "summarize_urls sample_env ?urls False None None ! 0
       = \<lparr>url = ''http://down.example'', title = [], meta_description = [], summary = [],
          notes' = ''fetch_failed''\<rparr>"
    by (simp only: u)
  from c1 c2 f c3 show ?thesis
    by blast
qed

section \<open>The external summary\<close>





section \<open>Properties of the URL list\<close>

text \<open>
  Claim C10. For an existing file whose suffix is \<open>.txt\<close> in any letter case,
  \<open>read_urls\<close> returns the lines of the file, each stripped of surrounding whitespace,
  without the blank ones and without those that begin with \<open>#\<close> once stripped, in
  file order.
\<close>

theorem read_urls_txt:
  assumes "file_exists f" and "lower (suffix f) = ''.txt''"
  shows "read_urls f = Inr (stripped_url_lines (content f))"
  using assms by (simp add: read_urls_def stripped_url_lines_def filter_map comp_def)

theorem read_urls_txt_witness:
  "file_exists sample_urls_file \<and> lower (suffix sample_urls_file) = ''.txt''
   \<and> read_urls sample_urls_file = Inr (stripped_url_lines (content sample_urls_file))
   \<and> stripped_url_lines (content sample_urls_file) = [''http://a.example'', ''http://b.example'']"
proof -
  have e: "file_exists sample_urls_file"
    by (simp add: sample_urls_file_def)
  have s: "lower (suffix sample_urls_file) = ''.txt''"
    by code_simp
  have l: "stripped_url_lines (content sample_urls_file)
             = [''http://a.example'', ''http://b.example'']"
    by code_simp
  from read_urls_txt [OF e s] e s l show ?thesis
    by blast
qed

section \<open>Properties of the log analyzer\<close>

lemma set_dropna: "set (dropna cells) = {v. Some v \<in> set cells}"
  by (induction cells) (auto simp: dropna_def split: option.splits)

lemma distinct_group_keys: "distinct (group_keys key rows)"
  by (simp add: group_keys_def)

lemma set_group_keys: "set (group_keys key rows) = {k. \<exists>r \<in> set rows. key r = Some k}"
  by (auto simp: group_keys_def set_dropna image_iff) metis+

lemma sum_list_delta:
  fixes c :: real
  assumes "distinct ks" and "k0 \<in> set ks"
  shows "(\<Sum>k\<leftarrow>ks. if k = k0 then c else 0) = c"
  using assms by (simp add: sum_list_distinct_conv_sum_set)

lemma group_sums:
  fixes f :: "row \<Rightarrow> real"
  assumes "distinct ks" and "\<And>r k. r \<in> set rows \<Longrightarrow> key r = Some k \<Longrightarrow> k \<in> set ks"
  shows "(\<Sum>k\<leftarrow>ks. sum_list (map f (filter (\<lambda>r. key r = Some k) rows)))
           = sum_list (map f (filter (\<lambda>r. key r \<noteq> None) rows))"
  using assms(2)
proof (induction rows)
  case Nil
  then show ?case by simp
next
  case (Cons r rs)
  have IH: "(\<Sum>k\<leftarrow>ks. sum_list (map f (filter (\<lambda>r. key r = Some k) rs)))
           = sum_list (map f (filter (\<lambda>r. key r \<noteq> None) rs))"
    by (rule Cons.IH) (use Cons.prems in auto)
  show ?case
  proof (cases "key r")
    case None
    with IH show ?thesis by simp
  next
    case (Some k0)
    have mem: "k0 \<in> set ks"
      by (rule Cons.prems [of r]) (simp_all add: Some)
    have "(\<Sum>k\<leftarrow>ks. sum_list (map f (filter (\<lambda>r. key r = Some k) (r # rs))))
            = (\<Sum>k\<leftarrow>ks. (if k = k0 then f r else 0)
                          + sum_list (map f (filter (\<lambda>r. key r = Some k) rs)))"
      using Some by (intro arg_cong[where f=sum_list] map_cong) auto
    also have "\<dots> = (\<Sum>k\<leftarrow>ks. if k = k0 then f r else 0)
                     + (\<Sum>k\<leftarrow>ks. sum_list (map f (filter (\<lambda>r. key r = Some k) rs)))"
      by (simp add: sum_list_addf)
    also have "\<dots> = f r + sum_list (map f (filter (\<lambda>r. key r \<noteq> None) rs))"
      using sum_list_delta[OF assms(1) mem] IH by simp
    finally show ?thesis using Some by simp
  qed
qed

lemma sum_list_dropna:
  fixes g :: "'a \<Rightarrow> real option"
  shows "sum_list (dropna (map g rs))
           = sum_list (map (\<lambda>r. case g r of None \<Rightarrow> 0 | Some d \<Rightarrow> d) rs)"
  by (induction rs) (simp_all add: dropna_def split: option.splits)

lemma sum_group_durations:
  "(\<Sum>k\<leftarrow>group_keys key rows. sum_list (group_durations key rows k))
     = sum_list (dropna (map duration_min (filter (\<lambda>r. key r \<noteq> None) rows)))"
proof -
  let ?f = "\<lambda>r::row. case duration_min r of None \<Rightarrow> 0 | Some d \<Rightarrow> d"
  have "(\<Sum>k\<leftarrow>group_keys key rows. sum_list (group_durations key rows k))
          = (\<Sum>k\<leftarrow>group_keys key rows. sum_list (map ?f (filter (\<lambda>r. key r = Some k) rows)))"
    by (simp only: group_durations_def sum_list_dropna)
  also have "\<dots> = sum_list (map ?f (filter (\<lambda>r. key r \<noteq> None) rows))"
    by (rule group_sums) (auto simp: distinct_group_keys set_group_keys)
  finally show ?thesis
    by (simp only: sum_list_dropna)
qed

lemma group_key_groupby_sum: "map group_key (groupby_sum P key rows) = group_keys key rows"
  by (simp add: groupby_sum_def comp_def)

lemma total_minutes_groupby_sum:
  "row \<in> set (groupby_sum P key rows) \<Longrightarrow>
     total_minutes row = column_sum P (group_durations key rows (group_key row))"
  by (auto simp: groupby_sum_def)

lemma sum_exact_groupby_sum:
  assumes "\<forall>row \<in> set (groupby_sum P key rows).
             total_minutes row = sum_list (group_durations key rows (group_key row))"
  shows "sum_list (map total_minutes (groupby_sum P key rows))
           = sum_list (dropna (map duration_min (filter (\<lambda>r. key r \<noteq> None) rows)))"
proof -
  have "map total_minutes (groupby_sum P key rows)
          = map (\<lambda>row. sum_list (group_durations key rows (group_key row)))
              (groupby_sum P key rows)"
    using assms by (intro map_cong) simp_all
  also have "\<dots> = map (\<lambda>k. sum_list (group_durations key rows k))
                     (map group_key (groupby_sum P key rows))"
    by (simp add: comp_def)
  finally have "sum_list (map total_minutes (groupby_sum P key rows))
                  = (\<Sum>k\<leftarrow>group_keys key rows. sum_list (group_durations key rows k))"
    by (simp only: group_key_groupby_sum)
  then show ?thesis
    by (simp only: sum_group_durations)
qed

lemma analyze_valid_rows:
  "time_per_user (analyze P rows) = groupby_sum P user (valid_rows P rows)"
  "time_per_task (analyze P rows) = groupby_sum P task_type (valid_rows P rows)"
  "top3_tasks (analyze P rows)
     = take 3 (sort_values_desc (groupby_sum P task_type (valid_rows P rows)))"
  "invalid_rows (analyze P rows) = filter invalid_mask (map (coerce P) rows)"
  by (simp_all add: analyze_def valid_rows_def Let_def)

lemma filter_all: "\<forall>x \<in> set xs. Q x \<Longrightarrow> filter Q xs = xs"
  by (induction xs) simp_all

lemma invalid_mask_valid:
  "\<not> invalid_mask r \<longleftrightarrow> start r \<noteq> None \<and> (\<exists>d. duration_min r = Some d \<and> 0 \<le> d)"
  by (auto simp: invalid_mask_def invalid_timestamp_def invalid_duration_def
        negative_duration_def not_less split: option.splits)

text \<open>
  Claim C7, amended. The valid records are those whose timestamp parses and whose
  duration parses and is not negative. \<open>time_per_user\<close> has one row for each user of a
  valid record, and its total is the sum, as pandas computes it, of \<open>duration_min\<close> over
  the valid records of that user and no other record; likewise \<open>time_per_task\<close>. So no
  invalid record contributes to a total, and a valid record contributes to the rows of its
  own keys only, to none where the key is missing. When every valid record has both keys
  and every total is the exact sum of its durations (no rounding), the totals of
  \<open>time_per_task\<close> and those of \<open>time_per_user\<close> add up to the same number, the sum of
  \<open>duration_min\<close> over the valid records.
\<close>

theorem analyze_totals_over_valid_rows:
  "set (valid_rows P rows)
     = {r \<in> coerce P ` set rows. start r \<noteq> None \<and> (\<exists>d. duration_min r = Some d \<and> 0 \<le> d)}
   \<and> distinct (map group_key (time_per_user (analyze P rows)))
   \<and> set (map group_key (time_per_user (analyze P rows)))
       = {u. \<exists>r \<in> set (valid_rows P rows). user r = Some u}
   \<and> (\<forall>row \<in> set (time_per_user (analyze P rows)).
         total_minutes row
           = column_sum P (group_durations user (valid_rows P rows) (group_key row)))
   \<and> distinct (map group_key (time_per_task (analyze P rows)))
   \<and> set (map group_key (time_per_task (analyze P rows)))
       = {t. \<exists>r \<in> set (valid_rows P rows). task_type r = Some t}
   \<and> (\<forall>row \<in> set (time_per_task (analyze P rows)).
         total_minutes row
           = column_sum P (group_durations task_type (valid_rows P rows) (group_key row)))
   \<and> ((\<forall>r \<in> set (valid_rows P rows). user r \<noteq> None \<and> task_type r \<noteq> None)
        \<and> (\<forall>row \<in> set (time_per_user (analyze P rows)).
              total_minutes row
                = sum_list (group_durations user (valid_rows P rows) (group_key row)))
        \<and> (\<forall>row \<in> set (time_per_task (analyze P rows)).
              total_minutes row
                = sum_list (group_durations task_type (valid_rows P rows) (group_key row)))
        \<longrightarrow> sum_list (map total_minutes (time_per_task (analyze P rows)))
              = sum_list (dropna (map duration_min (valid_rows P rows)))
            \<and> sum_list (map total_minutes (time_per_user (analyze P rows)))
              = sum_list (dropna (map duration_min (valid_rows P rows))))"
proof -
  let ?V = "valid_rows P rows"
  have v: "set ?V
     = {r \<in> coerce P ` set rows. start r \<noteq> None \<and> (\<exists>d. duration_min r = Some d \<and> 0 \<le> d)}"
    by (auto simp: valid_rows_def invalid_mask_valid)
  have u1: "distinct (map group_key (time_per_user (analyze P rows)))"
    by (simp only: analyze_valid_rows group_key_groupby_sum distinct_group_keys)
  have u2: "set (map group_key (time_per_user (analyze P rows)))
              = {u. \<exists>r \<in> set ?V. user r = Some u}"
    by (simp only: analyze_valid_rows group_key_groupby_sum set_group_keys)
  have u3: "\<forall>row \<in> set (time_per_user (analyze P rows)).
              total_minutes row = column_sum P (group_durations user ?V (group_key row))"
    by (simp only: analyze_valid_rows) (blast intro: total_minutes_groupby_sum)
  have t1: "distinct (map group_key (time_per_task (analyze P rows)))"
    by (simp only: analyze_valid_rows group_key_groupby_sum distinct_group_keys)
  have t2: "set (map group_key (time_per_task (analyze P rows)))
              = {t. \<exists>r \<in> set ?V. task_type r = Some t}"
    by (simp only: analyze_valid_rows group_key_groupby_sum set_group_keys)
  have t3: "\<forall>row \<in> set (time_per_task (analyze P rows)).
              total_minutes row = column_sum P (group_durations task_type ?V (group_key row))"
    by (simp only: analyze_valid_rows) (blast intro: total_minutes_groupby_sum)
  have e: "sum_list (map total_minutes (time_per_task (analyze P rows)))
              = sum_list (dropna (map duration_min ?V))
            \<and> sum_list (map total_minutes (time_per_user (analyze P rows)))
              = sum_list (dropna (map duration_min ?V))"
    if keyed: "\<forall>r \<in> set ?V. user r \<noteq> None \<and> task_type r \<noteq> None"
      and xu: "\<forall>row \<in> set (time_per_user (analyze P rows)).
                 total_minutes row = sum_list (group_durations user ?V (group_key row))"
      and xt: "\<forall>row \<in> set (time_per_task (analyze P rows)).
                 total_minutes row = sum_list (group_durations task_type ?V (group_key row))"
  proof -
    from keyed have ft: "filter (\<lambda>r. task_type r \<noteq> None) ?V = ?V"
      by (intro filter_all) blast
    from keyed have fu: "filter (\<lambda>r. user r \<noteq> None) ?V = ?V"
      by (intro filter_all) blast
    from xt have "sum_list (map total_minutes (groupby_sum P task_type ?V))
                    = sum_list (dropna (map duration_min (filter (\<lambda>r. task_type r \<noteq> None) ?V)))"
      by (intro sum_exact_groupby_sum) (simp only: analyze_valid_rows)
    moreover from xu have "sum_list (map total_minutes (groupby_sum P user ?V))
                    = sum_list (dropna (map duration_min (filter (\<lambda>r. user r \<noteq> None) ?V)))"
      by (intro sum_exact_groupby_sum) (simp only: analyze_valid_rows)
    ultimately show ?thesis
      by (simp only: analyze_valid_rows ft fu)
  qed
  from v u1 u2 u3 t1 t2 t3 e show ?thesis
    by blast
qed

lemma valid_rows_sample_log:
  "valid_rows sample_parsers sample_log
     = [\<lparr>user = Some ''alice'', task_type = Some ''build'', start = Some 1704103200,
         duration_min = Some 30\<rparr>]"
  by (simp add: valid_rows_def sample_log_def sample_parsers_def coerce_def invalid_mask_def
        invalid_timestamp_def invalid_duration_def negative_duration_def)

lemma column_sum_sample_parsers: "column_sum sample_parsers = sum_list"
  by (simp add: sample_parsers_def)

lemma tables_sample_log:
  "time_per_user (analyze sample_parsers sample_log)
     = [\<lparr>group_key = ''alice'', total_minutes = 30\<rparr>]"
  "time_per_task (analyze sample_parsers sample_log)
     = [\<lparr>group_key = ''build'', total_minutes = 30\<rparr>]"
  by (simp_all add: analyze_valid_rows valid_rows_sample_log groupby_sum_def group_keys_def
        group_durations_def dropna_def column_sum_sample_parsers)

theorem analyze_totals_over_valid_rows_witness:
  "time_per_user (analyze sample_parsers sample_log)
     = [\<lparr>group_key = ''alice'', total_minutes = 30\<rparr>]
   \<and> time_per_task (analyze sample_parsers sample_log)
     = [\<lparr>group_key = ''build'', total_minutes = 30\<rparr>]
   \<and> sum_list (map total_minutes (time_per_task (analyze sample_parsers sample_log)))
     = sum_list (dropna (map duration_min (valid_rows sample_parsers sample_log)))
   \<and> sum_list (map total_minutes (time_per_user (analyze sample_parsers sample_log)))
     = sum_list (dropna (map duration_min (valid_rows sample_parsers sample_log)))
   \<and> sum_list (dropna (map duration_min (valid_rows sample_parsers sample_log))) = 30"
proof -
  let ?V = "valid_rows sample_parsers sample_log"
  have keyed: "\<forall>r \<in> set ?V. user r \<noteq> None \<and> task_type r \<noteq> None"
    by (simp add: valid_rows_sample_log)
  have xu: "\<forall>row \<in> set (time_per_user (analyze sample_parsers sample_log)).
              total_minutes row = sum_list (group_durations user ?V (group_key row))"
    by (simp add: tables_sample_log valid_rows_sample_log group_durations_def dropna_def)
  have xt: "\<forall>row \<in> set (time_per_task (analyze sample_parsers sample_log)).
              total_minutes row = sum_list (group_durations task_type ?V (group_key row))"
    by (simp add: tables_sample_log valid_rows_sample_log group_durations_def dropna_def)
  have total: "sum_list (dropna (map duration_min ?V)) = 30"
    by (simp add: valid_rows_sample_log dropna_def)
  from analyze_totals_over_valid_rows [of sample_parsers sample_log] keyed xu xt
  have "sum_list (map total_minutes (time_per_task (analyze sample_parsers sample_log)))
          = sum_list (dropna (map duration_min ?V))
        \<and> sum_list (map total_minutes (time_per_user (analyze sample_parsers sample_log)))
          = sum_list (dropna (map duration_min ?V))"
    by blast
  with tables_sample_log total show ?thesis
    by blast
qed

lemma valid_rows_anonymous_log:
  "valid_rows sample_parsers anonymous_log
     = [\<lparr>user = None, task_type = Some ''build'', start = Some 1704103200,
         duration_min = Some 30\<rparr>]"
  by (simp add: valid_rows_def anonymous_log_def sample_parsers_def coerce_def invalid_mask_def
        invalid_timestamp_def invalid_duration_def negative_duration_def)

text \<open>
  Claim C7 as stated fails for a valid record whose \<open>user\<close> cell is empty: the record
  counts in \<open>time_per_task\<close> and in no row of \<open>time_per_user\<close>, so the two sums are
  30 and 0.
\<close>

theorem analyze_missing_user_sums_differ:
  "valid_rows sample_parsers anonymous_log
     = [\<lparr>user = None, task_type = Some ''build'', start = Some 1704103200,
         duration_min = Some 30\<rparr>]
   \<and> time_per_task (analyze sample_parsers anonymous_log)
     = [\<lparr>group_key = ''build'', total_minutes = 30\<rparr>]
   \<and> time_per_user (analyze sample_parsers anonymous_log) = []
   \<and> sum_list (map total_minutes (time_per_task (analyze sample_parsers anonymous_log))) = 30
   \<and> sum_list (map total_minutes (time_per_user (analyze sample_parsers anonymous_log))) = 0
   \<and> sum_list (map total_minutes (time_per_task (analyze sample_parsers anonymous_log)))
       \<noteq> sum_list (map total_minutes (time_per_user (analyze sample_parsers anonymous_log)))"
  by (simp add: analyze_valid_rows valid_rows_anonymous_log groupby_sum_def group_keys_def
        group_durations_def dropna_def column_sum_sample_parsers)

lemma invalid_mask_iff:
  "invalid_mask r \<longleftrightarrow>
     start r = None \<or> duration_min r = None \<or> (\<exists>d. duration_min r = Some d \<and> d < 0)"
  by (auto simp: invalid_mask_def invalid_timestamp_def invalid_duration_def
        negative_duration_def split: option.splits)

lemma invalid_iff_reasons: "invalid_mask r \<longleftrightarrow> reasons r \<noteq> []"
  by (auto simp: invalid_mask_def invalid_timestamp_def invalid_duration_def reasons_def)

lemma invalid_rows_sample_log:
  "invalid_rows (analyze sample_parsers sample_log)
     = [\<lparr>user = Some ''alice'', task_type = Some ''build'', start = None,
         duration_min = Some 20\<rparr>,
        \<lparr>user = Some ''bob'', task_type = Some ''test'', start = Some 1704106800,
         duration_min = Some (- 5)\<rparr>]"
  by (simp add: analyze_valid_rows sample_log_def sample_parsers_def coerce_def invalid_mask_def
        invalid_timestamp_def invalid_duration_def negative_duration_def)

text \<open>
  Claim C8, at the log of the scenario. The second record has the start text
  \<open>bad-date\<close> and the duration text \<open>20\<close>; its row in \<open>invalid_rows\<close> holds the
  coerced values (no timestamp, the number 20), not the original cells, and two records
  that differ in the unparseable start give the same \<open>invalid_rows\<close>.
\<close>

theorem invalid_rows_hold_coerced_values:
  "sample_log ! 1
     = \<lparr>user = Some ''alice'', task_type = Some ''build'', start = Some ''bad-date'',
        duration_min = Some ''20''\<rparr>
   \<and> invalid_rows (analyze sample_parsers sample_log)
     = [\<lparr>user = Some ''alice'', task_type = Some ''build'', start = None,
         duration_min = Some 20\<rparr>,
        \<lparr>user = Some ''bob'', task_type = Some ''test'', start = Some 1704106800,
         duration_min = Some (- 5)\<rparr>]
   \<and> invalid_rows (analyze sample_parsers
        [\<lparr>user = Some ''alice'', task_type = Some ''build'', start = Some ''bad-date'',
          duration_min = Some ''20''\<rparr>])
     = invalid_rows (analyze sample_parsers
        [\<lparr>user = Some ''alice'', task_type = Some ''build'', start = Some ''no date at all'',
          duration_min = Some ''20''\<rparr>])"
  by (simp add: analyze_valid_rows sample_log_def sample_parsers_def coerce_def invalid_mask_def
        invalid_timestamp_def invalid_duration_def negative_duration_def)

text \<open>
  Claim C9. Applying the ranking step (sort descending by \<open>total_minutes\<close>, take the
  first three rows) to the \<open>time_per_task\<close> table that \<open>analyze\<close> returns gives
  exactly the \<open>top3_tasks\<close> table of the same call.
\<close>

theorem top3_tasks_is_ranking_of_time_per_task:
  "ranking_step (time_per_task (analyze P rows)) = top3_tasks (analyze P rows)"
  by (simp add: analyze_valid_rows ranking_step_def sort_values_desc_def)

theorem top3_tasks_is_ranking_of_time_per_task_witness:
  "ranking_step (time_per_task (analyze sample_parsers sample_log))
     = top3_tasks (analyze sample_parsers sample_log)
   \<and> time_per_task (analyze sample_parsers sample_log)
     = [\<lparr>group_key = ''build'', total_minutes = 30\<rparr>]"
proof -
  have "time_per_task (analyze sample_parsers sample_log)
          = [\<lparr>group_key = ''build'', total_minutes = 30\<rparr>]"
    by (rule tables_sample_log)
  with top3_tasks_is_ranking_of_time_per_task [of sample_parsers sample_log] show ?thesis
    by blast
qed

end
